theory Spec2Isabelle
  imports Main "HOL-Library.AList"
begin

section \<open>Strings\<close>

text \<open>
  Python strings are sequences of code points. A \<^typ>\<open>char\<close> stands for a code point
  below 256 here, so texts are restricted to Latin-1. \<open>isspace\<close> lists the code points
  below 256 for which Python's \<^verbatim>\<open>str.isspace\<close> holds; \<^verbatim>\<open>str.strip()\<close> without
  argument removes them from both ends.
\<close>

definition isspace :: "char \<Rightarrow> bool" where
  "isspace c = (of_char c \<in> {9, 10, 11, 12, 13, 28, 29, 30, 31, 32, 133, 160 :: nat})"

definition lstrip :: "string \<Rightarrow> string" where
  "lstrip s = dropWhile isspace s"

definition rstrip :: "string \<Rightarrow> string" where
  "rstrip s = rev (dropWhile isspace (rev s))"

definition strip :: "string \<Rightarrow> string" where
  "strip s = rstrip (lstrip s)"

text \<open>
  \<^verbatim>\<open>str.lower()\<close> on code points below 256: the ASCII capitals and the Latin-1 capitals
  (192 to 222 without the multiplication sign 215) move up by 32.
\<close>

definition lower_char :: "char \<Rightarrow> char" where
  "lower_char c =
     (let n = (of_char c :: nat)
      in if (65 \<le> n \<and> n \<le> 90) \<or> (192 \<le> n \<and> n \<le> 222 \<and> n \<noteq> 215)
         then char_of (n + 32) else c)"

definition lower :: "string \<Rightarrow> string" where
  "lower s = map lower_char s"

section \<open>The parsed document\<close>

text \<open>
  The parser hands the scripts a tree: a node is a run of text or an element with a tag
  name, an attribute dictionary and its children in document order. The attribute
  dictionary is an association list read with \<^const>\<open>map_of\<close>. A document (the
  \<^verbatim>\<open>soup\<close> object) is the container node at the root; queries range over the nodes
  below it.
\<close>

datatype node = Text string | Element string "(string \<times> string) list" "node list"

fun children :: "node \<Rightarrow> node list" where
  "children (Text s) = []"
| "children (Element t as cs) = cs"

fun has_name :: "string \<Rightarrow> node \<Rightarrow> bool" where
  "has_name nm (Text s) = False"
| "has_name nm (Element t as cs) = (t = nm)"

text \<open>All nodes below a node, in document order (a node before its own descendants).\<close>

fun descendants :: "node \<Rightarrow> node list" where
  "descendants (Text s) = []"
| "descendants (Element t as cs) = concat (map (\<lambda>c. c # descendants c) cs)"

text \<open>\<^verbatim>\<open>node.find_all(name)\<close>: the elements below the node that carry the tag name.\<close>

definition find_all :: "string \<Rightarrow> node \<Rightarrow> node list" where
  "find_all nm n = filter (has_name nm) (descendants n)"

text \<open>\<^verbatim>\<open>node.find_all([name, ...])\<close>: the elements carrying one of the tag names.\<close>

definition find_all_names :: "string list \<Rightarrow> node \<Rightarrow> node list" where
  "find_all_names nms n = filter (\<lambda>e. list_ex (\<lambda>nm. has_name nm e) nms) (descendants n)"

text \<open>\<^verbatim>\<open>node.find(name)\<close>: the first such element, or \<^verbatim>\<open>None\<close>.\<close>

definition find_node :: "string \<Rightarrow> node \<Rightarrow> node option" where
  "find_node nm n = (case find_all nm n of [] \<Rightarrow> None | e # _ \<Rightarrow> Some e)"

text \<open>\<^verbatim>\<open>node.text\<close>: the texts below the node, concatenated in document order.\<close>

fun get_text :: "node \<Rightarrow> string" where
  "get_text (Text s) = s"
| "get_text (Element t as cs) = concat (map get_text cs)"

text \<open>\<^verbatim>\<open>tag.get(key)\<close> and \<^verbatim>\<open>tag.get(key, default)\<close>.\<close>

fun get :: "node \<Rightarrow> string \<Rightarrow> string option" where
  "get (Text s) k = None"
| "get (Element t as cs) k = map_of as k"

definition get_default :: "node \<Rightarrow> string \<Rightarrow> string \<Rightarrow> string" where
  "get_default n k d = (case get n k of None \<Rightarrow> d | Some v \<Rightarrow> v)"

section \<open>Basic extraction (examples/01\_basic\_scraping.py)\<close>

text \<open>
  \<^verbatim>\<open>extract_all_paragraphs(soup)\<close>: \<^verbatim>\<open>soup\<close> is \<^verbatim>\<open>None\<close> when fetching failed.
\<close>

definition extract_all_paragraphs :: "node option \<Rightarrow> string list" where
  "extract_all_paragraphs soup =
     (case soup of
        None \<Rightarrow> []
      | Some s \<Rightarrow> concat (map (\<lambda>p. if strip (get_text p) \<noteq> [] then [strip (get_text p)] else [])
                           (find_all ''p'' s)))"

section \<open>Metadata (examples/05\_advanced\_techniques.py)\<close>

text \<open>
  The dictionary with the keys \<^verbatim>\<open>title\<close>, \<^verbatim>\<open>description\<close>, \<^verbatim>\<open>keywords\<close> and
  \<^verbatim>\<open>author\<close>; \<^verbatim>\<open>None\<close> is an absent value.
\<close>

record metadata =
  md_title :: "string option"
  md_description :: "string option"
  md_keywords :: "string option"
  md_author :: "string option"

definition empty_metadata :: metadata where
  "empty_metadata = \<lparr>md_title = None, md_description = None, md_keywords = None, md_author = None\<rparr>"

text \<open>The body of the loop over the \<^verbatim>\<open>meta\<close> tags.\<close>

definition meta_step :: "metadata \<Rightarrow> node \<Rightarrow> metadata" where
  "meta_step md tag =
     (let name = lower (get_default tag ''name'' '''');
          property_name = lower (get_default tag ''property'' '''');
          content = get_default tag ''content'' ''''
      in if name = ''description'' \<or> property_name = ''og:description''
         then md\<lparr>md_description := Some content\<rparr>
         else if name = ''keywords'' then md\<lparr>md_keywords := Some content\<rparr>
         else if name = ''author'' then md\<lparr>md_author := Some content\<rparr>
         else md)"

definition extract_metadata :: "node option \<Rightarrow> metadata" where
  "extract_metadata soup =
     (case soup of
        None \<Rightarrow> empty_metadata
      | Some s \<Rightarrow>
          (let md = (case find_node ''title'' s of
                       Some title_tag \<Rightarrow> empty_metadata\<lparr>md_title := Some (strip (get_text title_tag))\<rparr>
                     | None \<Rightarrow> empty_metadata)
           in foldl meta_step md (find_all ''meta'' s)))"

text \<open>What the loop reads from a \<^verbatim>\<open>meta\<close> tag, and the test of its first branch.\<close>

abbreviation meta_name :: "node \<Rightarrow> string" where
  "meta_name t \<equiv> lower (get_default t ''name'' [])"

abbreviation meta_property :: "node \<Rightarrow> string" where
  "meta_property t \<equiv> lower (get_default t ''property'' [])"

abbreviation meta_content :: "node \<Rightarrow> string" where
  "meta_content t \<equiv> get_default t ''content'' []"

abbreviation is_description :: "node \<Rightarrow> bool" where
  "is_description t \<equiv> meta_name t = ''description'' \<or> meta_property t = ''og:description''"

text \<open>
  A document with two titles, two author tags (the first spelled with capitals), a
  description given by name and then by property, and a keywords tag without content.
\<close>

definition meta_doc :: node where
  "meta_doc =
     Element ''[document]'' []
       [Element ''head'' []
          [Element ''meta'' [(''name'', ''AUTHOR''), (''content'', ''Ada'')] [],
           Element ''title'' [] [Text '' Sample Page ''],
           Element ''meta'' [(''name'', ''description''), (''content'', ''first'')] [],
           Element ''meta'' [(''name'', ''author''), (''content'', ''Grace'')] [],
           Element ''meta'' [(''property'', ''og:description''), (''content'', ''second'')] [],
           Element ''meta'' [(''name'', ''keywords'')] [],
           Element ''meta'' [(''charset'', ''UTF-8'')] []],
        Element ''title'' [] [Text ''Other'']]"

text \<open>
  Two author tags, the second of which also carries the property \<open>og:description\<close>.
\<close>

definition og_author_doc :: node where
  "og_author_doc =
     Element ''[document]'' []
       [Element ''meta'' [(''name'', ''author''), (''content'', ''Ada'')] [],
        Element ''meta'' [(''name'', ''author''), (''property'', ''og:description''),
                          (''content'', ''Grace'')] []]"

section \<open>Tables (examples/04\_table\_scraping.py)\<close>

text \<open>The dictionary with the keys \<^verbatim>\<open>headers\<close> and \<^verbatim>\<open>rows\<close>.\<close>

record table_data =
  headers :: "string list"
  rows :: "string list list"

text \<open>
  The first half of \<^verbatim>\<open>extract_table_data\<close>: the value of \<^verbatim>\<open>headers\<close>. A tag object is
  always true in a condition, so \<^verbatim>\<open>if header_row\<close> asks whether \<^verbatim>\<open>find\<close> found one.
\<close>

definition table_headers :: "node \<Rightarrow> string list" where
  "table_headers table =
     (case find_node ''thead'' table of
        Some header_row \<Rightarrow> map (\<lambda>th. strip (get_text th)) (find_all ''th'' header_row)
      | None \<Rightarrow>
          (case find_node ''tr'' table of
             Some first_row \<Rightarrow> map (\<lambda>th. strip (get_text th)) (find_all ''th'' first_row)
           | None \<Rightarrow> []))"

text \<open>The value of \<^verbatim>\<open>table_rows\<close> when the loop over the rows starts.\<close>

definition table_rows :: "node \<Rightarrow> node list" where
  "table_rows table =
     (case find_node ''tbody'' table of
        Some tbody \<Rightarrow> find_all ''tr'' tbody
      | None \<Rightarrow>
          (if table_headers table \<noteq> [] then drop 1 (find_all ''tr'' table)
           else find_all ''tr'' table))"

definition extract_table_data :: "node \<Rightarrow> table_data" where
  "extract_table_data table =
     \<lparr>headers = table_headers table,
      rows = foldl (\<lambda>rs row.
                      let row_data = map (\<lambda>cell. strip (get_text cell))
                                         (find_all_names [''td'', ''th''] row)
                      in if row_data \<noteq> [] then rs @ [row_data] else rs)
                   [] (table_rows table)\<rparr>"

text \<open>Decimal digits of a natural number, as an f-string prints it.\<close>

definition digit_char :: "nat \<Rightarrow> char" where
  "digit_char d = char_of (48 + d)"

function str_nat :: "nat \<Rightarrow> string" where
  "str_nat n = (if n < 10 then [digit_char n] else str_nat (n div 10) @ [digit_char (n mod 10)])"
  by pat_completeness auto
termination
  by (relation "measure id") auto

declare str_nat.simps [simp del]

text \<open>
  The inner loop of \<^verbatim>\<open>table_to_dict_list\<close> over \<^verbatim>\<open>enumerate(row)\<close>, from index \<open>i\<close> on.
  A Python dictionary keeps its keys in insertion order and assigning to a key that is
  present replaces the value in place, which is \<^const>\<open>AList.update\<close>.
\<close>

fun row_dict_loop :: "string list \<Rightarrow> nat \<Rightarrow> string list \<Rightarrow> (string \<times> string) list \<Rightarrow> (string \<times> string) list" where
  "row_dict_loop hs i [] row_dict = row_dict"
| "row_dict_loop hs i (v # vs) row_dict =
     (let key = (if i < length hs then hs ! i else ''Column_'' @ str_nat (i + 1))
      in row_dict_loop hs (i + 1) vs (AList.update key v row_dict))"

definition table_to_dict_list :: "table_data \<Rightarrow> (string \<times> string) list list" where
  "table_to_dict_list td =
     (if headers td = [] \<or> rows td = [] then []
      else foldl (\<lambda>dict_list row. dict_list @ [row_dict_loop (headers td) 0 row []]) [] (rows td))"

text \<open>
  The key the spec gives to the cell at index \<open>i\<close> of a row: the header at that index, or
  \<open>Column_\<close> followed by \<open>i + 1\<close> past the end of the headers.
\<close>

definition spec_key :: "string list \<Rightarrow> nat \<Rightarrow> string" where
  "spec_key hs i = (if i < length hs then hs ! i else ''Column_'' @ str_nat (i + 1))"

subsection \<open>Example tables\<close>

text \<open>
  A table without sections: a first row of header cells, a data row, a row without cells
  and a row that is longer than the headers and mixes both kinds of cell.
\<close>

definition header_row :: node where
  "header_row = Element ''tr'' [] [Element ''th'' [] [Text '' Name ''], Element ''th'' [] [Text ''Age'']]"

definition long_row :: node where
  "long_row =
     Element ''tr'' []
       [Element ''th'' [] [Text ''Bob''], Element ''td'' [] [Text ''41''],
        Element ''td'' [] [Text ''extra'']]"

definition plain_table :: node where
  "plain_table =
     Element ''table'' []
       [header_row,
        Element ''tr'' [] [Element ''td'' [] [Text ''Ada''], Element ''td'' [] [Text '' 36'']],
        Element ''tr'' [] [],
        long_row]"

text \<open>A table whose body section starts with the row of header cells; no header section.\<close>

definition body_table :: node where
  "body_table =
     Element ''table'' []
       [Element ''tbody'' []
          [header_row,
           Element ''tr'' [] [Element ''td'' [] [Text ''Ada''], Element ''td'' [] [Text ''36'']]]]"

text \<open>A table record with a repeated header and a row longer than the headers.\<close>

definition dup_table :: table_data where
  "dup_table = \<lparr>headers = [''k'', ''k''], rows = [[''a'', ''b'', ''c'']]\<rparr>"

section \<open>URL resolution (urllib.parse)\<close>

text \<open>ASCII letters, and the characters of a URL scheme.\<close>

definition is_alpha :: "char \<Rightarrow> bool" where
  "is_alpha c = (let n = (of_char c :: nat) in (65 \<le> n \<and> n \<le> 90) \<or> (97 \<le> n \<and> n \<le> 122))"

definition is_scheme_char :: "char \<Rightarrow> bool" where
  "is_scheme_char c =
     (let n = (of_char c :: nat)
      in is_alpha c \<or> (48 \<le> n \<and> n \<le> 57) \<or> n = 43 \<or> n = 45 \<or> n = 46)"

subsection \<open>The standard library's urljoin\<close>





















section \<open>Links (examples/03\_links\_and\_images.py)\<close>

text \<open>The dictionary with the keys \<^verbatim>\<open>text\<close> and \<^verbatim>\<open>url\<close>.\<close>

record link =
  link_text :: string
  link_url :: string



text \<open>The dictionary with the keys \<^verbatim>\<open>internal\<close> and \<^verbatim>\<open>external\<close>.\<close>

record categorized =
  internal :: "link list"
  external :: "link list"

text \<open>
  \<^verbatim>\<open>categorize_links(links)\<close>. The parameter \<open>netloc\<close> is
  \<^verbatim>\<open>urlparse(url).netloc\<close> of the standard library.
\<close>

definition categorize_links :: "(string \<Rightarrow> string) \<Rightarrow> link list \<Rightarrow> categorized" where
  "categorize_links netloc links =
     (case links of
        [] \<Rightarrow> \<lparr>internal = [], external = []\<rparr>
      | first # _ \<Rightarrow>
          (let base_domain = netloc (link_url first)
           in foldl (\<lambda>c l.
                       let parsed = netloc (link_url l)
                       in if parsed = base_domain \<or> parsed = []
                          then c\<lparr>internal := internal c @ [l]\<rparr>
                          else c\<lparr>external := external c @ [l]\<rparr>)
                    \<lparr>internal = [], external = []\<rparr> links))"

subsection \<open>The standard library's URL functions on plain URLs\<close>

text \<open>
  What \<^verbatim>\<open>urlparse(url).netloc\<close> gives for a URL without control characters and without
  brackets: a leading scheme (a letter, then letters, digits, \<open>+\<close>, \<open>-\<close>, \<open>.\<close>, then a
  colon) is split off, and if the rest starts with two slashes the network location runs
  up to the next \<open>/\<close>, \<open>?\<close> or \<open>#\<close>. It instantiates the parameter of
  \<open>categorize_links\<close> in the examples.
\<close>

definition url_scheme :: "string \<Rightarrow> string" where
  "url_scheme url =
     (let pre = takeWhile (\<lambda>c. c \<noteq> CHR '':'') url
      in if length pre < length url \<and> pre \<noteq> [] \<and> is_alpha (hd pre) \<and> list_all is_scheme_char pre
         then pre else [])"

definition after_scheme :: "string \<Rightarrow> string" where
  "after_scheme url = (if url_scheme url = [] then url else drop (length (url_scheme url) + 1) url)"

definition url_netloc :: "string \<Rightarrow> string" where
  "url_netloc url =
     (if take 2 (after_scheme url) = ''//''
      then takeWhile (\<lambda>c. c \<noteq> CHR ''/'' \<and> c \<noteq> CHR ''?'' \<and> c \<noteq> CHR ''#'') (drop 2 (after_scheme url))
      else [])"

subsection \<open>Example links\<close>




section \<open>Selector queries\<close>

text \<open>
  Modelled from the spec: \<^verbatim>\<open>select\<close> is the selector engine of the parsing library; the
  scripts of examples/02\_css\_selectors.py only hand it a selector text. The selector
  grammar of the spec (section 4.1 and the design notes) as a tagged variant: tag name,
  \<open>#id\<close>, \<open>.class\<close>, \<open>tag[attr=value]\<close>, the descendant combinator and the direct-child
  combinator. In a combinator the first selector constrains the ancestor (or parent), the
  second the element itself.
\<close>

datatype selector =
    SelTag string
  | SelId string
  | SelClass string
  | SelAttr string string string
  | SelDescendant selector selector
  | SelChild selector selector

text \<open>
  Modelled from the spec: a class attribute is a whitespace-separated set of names.
  \<open>split_ws cur s\<close> splits \<open>s\<close> at whitespace, \<open>cur\<close> being the name read so far.
\<close>

fun split_ws :: "string \<Rightarrow> string \<Rightarrow> string list" where
  "split_ws cur [] = (if cur = [] then [] else [cur])"
| "split_ws cur (c # cs) =
     (if isspace c then (if cur = [] then [] else [cur]) @ split_ws [] cs
      else split_ws (cur @ [c]) cs)"

text \<open>
  Modelled from the spec: the elements below the document root in document order, each
  with its chain of ancestors, the parent first. The root container is the document and
  no element, so it is in no chain.
\<close>

fun located_below :: "node list \<Rightarrow> node \<Rightarrow> (node list \<times> node) list" where
  "located_below anc (Text s) = []"
| "located_below anc (Element t as cs) =
     concat (map (\<lambda>c. (Element t as cs # anc, c) # located_below (Element t as cs # anc) c) cs)"

definition located :: "node \<Rightarrow> (node list \<times> node) list" where
  "located doc = concat (map (\<lambda>c. ([], c) # located_below [] c) (children doc))"

text \<open>
  Modelled from the spec: whether an element with the given ancestor chain matches a
  selector. The child combinator looks at the parent only, the descendant combinator at
  every ancestor.
\<close>

fun matches :: "selector \<Rightarrow> node list \<Rightarrow> node \<Rightarrow> bool" where
  "matches (SelTag t) anc e = has_name t e"
| "matches (SelId i) anc e = (get e ''id'' = Some i)"
| "matches (SelClass c) anc e =
     (case get e ''class'' of None \<Rightarrow> False | Some v \<Rightarrow> c \<in> set (split_ws [] v))"
| "matches (SelAttr t a v) anc e = (has_name t e \<and> get e a = Some v)"
| "matches (SelDescendant p c) anc e =
     (matches c anc e \<and> list_ex (\<lambda>i. matches p (drop (Suc i) anc) (anc ! i)) [0..<length anc])"
| "matches (SelChild p c) anc e =
     (matches c anc e \<and> (case anc of [] \<Rightarrow> False | par # up \<Rightarrow> matches p up par))"

text \<open>
  Modelled from the spec: \<^verbatim>\<open>select(selector)\<close> returns all matching elements in document
  order; an element is returned with its ancestor chain, as the library's element objects
  carry their parent.
\<close>

definition select :: "selector \<Rightarrow> node \<Rightarrow> (node list \<times> node) list" where
  "select sel doc = filter (\<lambda>(anc, e). matches sel anc e) (located doc)"

subsection \<open>Example document for the combinators\<close>

text \<open>
  A \<open>div\<close> with a \<open>section\<close> child that holds a \<open>p\<close>, and with a \<open>p\<close> child of its own.
\<close>

definition deep_p :: node where
  "deep_p = Element ''p'' [] [Text ''deep'']"

definition mid_section :: node where
  "mid_section = Element ''section'' [] [deep_p]"

definition outer_div :: node where
  "outer_div = Element ''div'' [] [mid_section, Element ''p'' [] [Text ''direct'']]"

definition nested_doc :: node where
  "nested_doc = Element ''[document]'' [] [Element ''body'' [] [outer_div]]"

section \<open>Trimming\<close>

lemma rstrip_Nil_iff: "rstrip s = [] \<longleftrightarrow> list_all isspace s"
  by (simp add: rstrip_def dropWhile_eq_Nil_conv list_all_iff)

lemma lstrip_Nil_iff: "lstrip s = [] \<longleftrightarrow> list_all isspace s"
  by (simp add: lstrip_def dropWhile_eq_Nil_conv list_all_iff)

lemma strip_Nil_iff: "strip s = [] \<longleftrightarrow> list_all isspace s"
proof
  assume "strip s = []"
  then have "list_all isspace (dropWhile isspace s)"
    by (simp add: strip_def rstrip_Nil_iff lstrip_def)
  then have "dropWhile isspace s = []"
    by (metis hd_dropWhile list.pred_set list.set_sel(1))
  then show "list_all isspace s"
    by (simp add: dropWhile_eq_Nil_conv list_all_iff)
next
  assume "list_all isspace s"
  then have "lstrip s = []" by (simp add: lstrip_Nil_iff)
  then show "strip s = []" by (simp add: strip_def rstrip_def)
qed

lemma rstrip_idem: "rstrip (rstrip u) = rstrip u"
  by (simp add: rstrip_def)

lemma rstrip_prefix: "\<exists>w. u = rstrip u @ w"
proof -
  have "rev u = takeWhile isspace (rev u) @ dropWhile isspace (rev u)" by simp
  then have "u = rev (dropWhile isspace (rev u)) @ rev (takeWhile isspace (rev u))"
    by (metis rev_append rev_rev_ident)
  then show ?thesis unfolding rstrip_def by blast
qed

lemma lstrip_rstrip_lstrip: "lstrip (rstrip (lstrip s)) = rstrip (lstrip s)"
proof (cases "rstrip (lstrip s) = []")
  case True
  then show ?thesis by (simp add: lstrip_def)
next
  case False
  obtain w where w: "lstrip s = rstrip (lstrip s) @ w" using rstrip_prefix by blast
  from False w have ne: "lstrip s \<noteq> []" by auto
  from False w have "hd (rstrip (lstrip s)) = hd (lstrip s)" by (metis hd_append2)
  moreover from ne have "\<not> isspace (hd (lstrip s))" unfolding lstrip_def by (rule hd_dropWhile)
  ultimately have "\<not> isspace (hd (rstrip (lstrip s)))" by simp
  with False show ?thesis
    by (cases "rstrip (lstrip s)") (simp_all add: lstrip_def)
qed

lemma strip_idem: "strip (strip s) = strip s"
  by (simp add: strip_def lstrip_rstrip_lstrip rstrip_idem)

section \<open>Loops that append\<close>

lemma foldl_append_if:
  "foldl (\<lambda>acc x. if P x then acc @ [f x] else acc) a xs = a @ map f (filter P xs)"
  by (induction xs arbitrary: a) simp_all

lemma foldl_append_map:
  "foldl (\<lambda>acc x. acc @ [f x]) a xs = a @ map f xs"
  by (induction xs arbitrary: a) simp_all

lemmas table_eval = extract_table_data_def table_rows_def table_headers_def find_node_def
  find_all_def find_all_names_def strip_def lstrip_def rstrip_def isspace_def

section \<open>Table extraction\<close>

lemma rows_extract_table_data:
  "rows (extract_table_data t) =
     filter (\<lambda>r. r \<noteq> [])
       (map (\<lambda>row. map (\<lambda>cell. strip (get_text cell)) (find_all_names [''td'', ''th''] row))
            (table_rows t))"
proof -
  have "rows (extract_table_data t) =
      foldl (\<lambda>rs row. if map (\<lambda>cell. strip (get_text cell)) (find_all_names [''td'', ''th''] row) \<noteq> []
                       then rs @ [map (\<lambda>cell. strip (get_text cell)) (find_all_names [''td'', ''th''] row)]
                       else rs) [] (table_rows t)"
    by (simp add: extract_table_data_def Let_def)
  also have "\<dots> = map (\<lambda>row. map (\<lambda>cell. strip (get_text cell)) (find_all_names [''td'', ''th''] row))
         (filter (\<lambda>row. map (\<lambda>cell. strip (get_text cell)) (find_all_names [''td'', ''th''] row) \<noteq> []) (table_rows t))"
    by (simp only: foldl_append_if append_Nil)
  also have "\<dots> = filter (\<lambda>r. r \<noteq> [])
       (map (\<lambda>row. map (\<lambda>cell. strip (get_text cell)) (find_all_names [''td'', ''th''] row))
            (table_rows t))"
    by (simp add: filter_map comp_def)
  finally show ?thesis .
qed

section \<open>Paragraph extraction\<close>

lemma concat_map_if_filter:
  "concat (map (\<lambda>x. if P x then [f x] else []) xs) = map f (filter P xs)"
  by (induction xs) simp_all

text \<open>
  C9. For a parsed document, \<open>extract_all_paragraphs\<close> returns the trimmed text of
  each \<open>p\<close> element whose trimmed text is not empty, in document order; a \<open>p\<close> element
  whose text is empty or consists of whitespace only contributes nothing.
\<close>

theorem extract_all_paragraphs_spec:
  "extract_all_paragraphs (Some d) =
     map (\<lambda>p. strip (get_text p)) (filter (\<lambda>p. strip (get_text p) \<noteq> []) (find_all ''p'' d))
   \<and> extract_all_paragraphs (Some d) =
     map (\<lambda>p. strip (get_text p)) (filter (\<lambda>p. \<not> list_all isspace (get_text p)) (find_all ''p'' d))"
  by (simp add: extract_all_paragraphs_def concat_map_if_filter strip_Nil_iff)

section \<open>Metadata of an absent document\<close>

text \<open>
  C10. Given the absent document (\<open>None\<close>, what the fetch functions return on failure),
  \<open>extract_metadata\<close> returns the record whose four fields are all absent; the function
  has no error result.
\<close>

theorem extract_metadata_absent:
  "extract_metadata None = \<lparr>md_title = None, md_description = None, md_keywords = None, md_author = None\<rparr>"
  by (simp add: extract_metadata_def empty_metadata_def)

section \<open>The table algorithm\<close>

text \<open>
  C1. The claim holds that a row consumed as header never appears among the returned
  rows. The code breaks it when the row of header cells lies in a body section: for
  \<open>body_table\<close> the first row gives the headers and is returned as the first data row
  as well. Without a body section (\<open>plain_table\<close>, which starts with the same row) the
  code does skip that row, as its comment says.
\<close>

theorem extract_table_data_header_row_kept:
  "find_node ''thead'' body_table = None
   \<and> find_node ''tr'' body_table = Some header_row
   \<and> headers (extract_table_data body_table)
       = map (\<lambda>th. strip (get_text th)) (find_all ''th'' header_row)
   \<and> headers (extract_table_data body_table) = [''Name'', ''Age'']
   \<and> header_row \<in> set (table_rows body_table)
   \<and> rows (extract_table_data body_table) = [[''Name'', ''Age''], [''Ada'', ''36'']]
   \<and> find_node ''thead'' plain_table = None
   \<and> find_node ''tr'' plain_table = Some header_row
   \<and> headers (extract_table_data plain_table) = [''Name'', ''Age'']
   \<and> header_row \<notin> set (table_rows plain_table)
   \<and> rows (extract_table_data plain_table) = [[''Ada'', ''36''], [''Bob'', ''41'', ''extra'']]"
  by (simp add: table_eval body_table_def plain_table_def header_row_def long_row_def)

text \<open>
  C8. Every returned row is the sequence of trimmed texts of the header and data cells
  of a row of the row source; no returned row is empty; and every row of the row source
  with at least one cell is returned, whatever the number of headers.
\<close>

theorem extract_table_rows_invariant:
  "rows (extract_table_data t) =
     filter (\<lambda>r. r \<noteq> [])
       (map (\<lambda>row. map (\<lambda>cell. strip (get_text cell))
                        (filter (\<lambda>e. has_name ''td'' e \<or> has_name ''th'' e) (descendants row)))
            (table_rows t))
   \<and> [] \<notin> set (rows (extract_table_data t))
   \<and> (\<forall>r \<in> set (rows (extract_table_data t)). \<forall>c \<in> set r. strip c = c)
   \<and> (\<forall>row \<in> set (table_rows t).
         find_all_names [''td'', ''th''] row \<noteq> [] \<longrightarrow>
         map (\<lambda>cell. strip (get_text cell)) (find_all_names [''td'', ''th''] row)
           \<in> set (rows (extract_table_data t)))"
proof (intro conjI)
  show "rows (extract_table_data t) =
     filter (\<lambda>r. r \<noteq> [])
       (map (\<lambda>row. map (\<lambda>cell. strip (get_text cell))
                        (filter (\<lambda>e. has_name ''td'' e \<or> has_name ''th'' e) (descendants row)))
            (table_rows t))"
    by (simp add: rows_extract_table_data find_all_names_def)
  show "[] \<notin> set (rows (extract_table_data t))"
    by (simp add: rows_extract_table_data)
  show "\<forall>r \<in> set (rows (extract_table_data t)). \<forall>c \<in> set r. strip c = c"
    by (auto simp: rows_extract_table_data strip_idem)
  show "\<forall>row \<in> set (table_rows t).
         find_all_names [''td'', ''th''] row \<noteq> [] \<longrightarrow>
         map (\<lambda>cell. strip (get_text cell)) (find_all_names [''td'', ''th''] row)
           \<in> set (rows (extract_table_data t))"
    by (auto simp: rows_extract_table_data)
qed

theorem extract_table_rows_invariant_witness:
  "length (headers (extract_table_data plain_table)) = 2
   \<and> long_row \<in> set (table_rows plain_table)
   \<and> [''Bob'', ''41'', ''extra''] \<in> set (rows (extract_table_data plain_table))
   \<and> [] \<notin> set (rows (extract_table_data plain_table))
   \<and> strip ''Bob'' = ''Bob''"
proof -
  note inv = extract_table_rows_invariant [of plain_table]
  have r: "long_row \<in> set (table_rows plain_table)"
    by (simp add: table_eval plain_table_def header_row_def long_row_def)
  have h: "length (headers (extract_table_data plain_table)) = 2"
    by (simp add: table_eval plain_table_def header_row_def long_row_def)
  have cells: "find_all_names [''td'', ''th''] long_row \<noteq> []"
    by (simp add: find_all_names_def long_row_def)
  have texts: "map (\<lambda>cell. strip (get_text cell)) (find_all_names [''td'', ''th''] long_row)
      = [''Bob'', ''41'', ''extra'']"
    by (simp add: find_all_names_def long_row_def strip_def lstrip_def rstrip_def isspace_def)
  from inv have d: "\<forall>row \<in> set (table_rows plain_table).
         find_all_names [''td'', ''th''] row \<noteq> [] \<longrightarrow>
         map (\<lambda>cell. strip (get_text cell)) (find_all_names [''td'', ''th''] row)
           \<in> set (rows (extract_table_data plain_table))"
    by (elim conjE)
  from d r have "find_all_names [''td'', ''th''] long_row \<noteq> [] \<longrightarrow>
      map (\<lambda>cell. strip (get_text cell)) (find_all_names [''td'', ''th''] long_row)
        \<in> set (rows (extract_table_data plain_table))"
    by (rule bspec)
  from this cells have "map (\<lambda>cell. strip (get_text cell)) (find_all_names [''td'', ''th''] long_row)
      \<in> set (rows (extract_table_data plain_table))"
    by (rule mp)
  then have m: "[''Bob'', ''41'', ''extra''] \<in> set (rows (extract_table_data plain_table))"
    by (simp only: texts)
  from inv have e: "[] \<notin> set (rows (extract_table_data plain_table))"
    by (elim conjE)
  from inv have c: "\<forall>r \<in> set (rows (extract_table_data plain_table)). \<forall>c \<in> set r. strip c = c"
    by (elim conjE)
  from c m have "\<forall>c \<in> set [''Bob'', ''41'', ''extra'']. strip c = c"
    by (rule bspec)
  then have b: "strip ''Bob'' = ''Bob''"
    by (rule bspec) simp
  from h r m e b show ?thesis by (intro conjI)
qed

section \<open>Rows as dictionaries\<close>

lemma row_dict_loop_other:
  "(\<forall>j < length vs. spec_key hs (i + j) \<noteq> k) \<Longrightarrow>
     map_of (row_dict_loop hs i vs d) k = map_of d k"
proof (induction vs arbitrary: i d)
  case Nil
  then show ?case by simp
next
  case (Cons v vs)
  have k0: "spec_key hs i \<noteq> k" using Cons.prems by force
  have "\<forall>j < length vs. spec_key hs (Suc i + j) \<noteq> k"
  proof (intro allI impI)
    fix j assume "j < length vs"
    then have "Suc j < length (v # vs)" by simp
    with Cons.prems have "spec_key hs (i + Suc j) \<noteq> k" by blast
    then show "spec_key hs (Suc i + j) \<noteq> k" by simp
  qed
  then have "map_of (row_dict_loop hs (Suc i) vs (AList.update (spec_key hs i) v d)) k
      = map_of (AList.update (spec_key hs i) v d) k"
    by (rule Cons.IH)
  with k0 show ?case
    by (simp add: spec_key_def update_conv')
qed

lemma row_dict_loop_last_write:
  "j < length vs \<Longrightarrow>
   (\<forall>j'. j < j' \<and> j' < length vs \<longrightarrow> spec_key hs (i + j') \<noteq> spec_key hs (i + j)) \<Longrightarrow>
     map_of (row_dict_loop hs i vs d) (spec_key hs (i + j)) = Some (vs ! j)"
proof (induction vs arbitrary: i j d)
  case Nil
  then show ?case by simp
next
  case (Cons v vs)
  show ?case
  proof (cases j)
    case 0
    have "\<forall>j' < length vs. spec_key hs (Suc i + j') \<noteq> spec_key hs i"
    proof (intro allI impI)
      fix j' assume "j' < length vs"
      then have "j < Suc j' \<and> Suc j' < length (v # vs)" using 0 by simp
      with Cons.prems(2) have "spec_key hs (i + Suc j') \<noteq> spec_key hs (i + j)" by blast
      then show "spec_key hs (Suc i + j') \<noteq> spec_key hs i" using 0 by simp
    qed
    then have "map_of (row_dict_loop hs (Suc i) vs (AList.update (spec_key hs i) v d)) (spec_key hs i)
        = map_of (AList.update (spec_key hs i) v d) (spec_key hs i)"
      by (rule row_dict_loop_other)
    with 0 show ?thesis by (simp add: spec_key_def update_conv')
  next
    case (Suc j0)
    with Cons.prems(1) have j0: "j0 < length vs" by simp
    have "\<forall>j'. j0 < j' \<and> j' < length vs \<longrightarrow> spec_key hs (Suc i + j') \<noteq> spec_key hs (Suc i + j0)"
    proof (intro allI impI)
      fix j' assume "j0 < j' \<and> j' < length vs"
      then have "j < Suc j' \<and> Suc j' < length (v # vs)" using Suc by simp
      with Cons.prems(2) have "spec_key hs (i + Suc j') \<noteq> spec_key hs (i + j)" by blast
      then show "spec_key hs (Suc i + j') \<noteq> spec_key hs (Suc i + j0)" using Suc by simp
    qed
    with j0 have "map_of (row_dict_loop hs (Suc i) vs (AList.update (spec_key hs i) v d)) (spec_key hs (Suc i + j0))
        = Some (vs ! j0)"
      by (rule Cons.IH)
    with Suc show ?thesis by (simp add: spec_key_def)
  qed
qed

lemma row_dict_loop_dom:
  "dom (map_of (row_dict_loop hs i vs d)) = dom (map_of d) \<union> (\<lambda>j. spec_key hs (i + j)) ` {..<length vs}"
proof (induction vs arbitrary: i d)
  case Nil
  then show ?case by simp
next
  case (Cons v vs)
  have "dom (map_of (row_dict_loop hs (Suc i) vs (AList.update (spec_key hs i) v d)))
      = dom (map_of (AList.update (spec_key hs i) v d)) \<union> (\<lambda>j. spec_key hs (Suc i + j)) ` {..<length vs}"
    by (rule Cons.IH)
  moreover have "(\<lambda>j. spec_key hs (i + j)) ` {..<length (v # vs)}
      = insert (spec_key hs i) ((\<lambda>j. spec_key hs (Suc i + j)) ` {..<length vs})"
    by (auto simp: lessThan_Suc_eq_insert_0 image_image)
  ultimately show ?case
    by (simp add: spec_key_def update_conv' del: lessThan_Suc)
qed

lemma table_to_dict_list_map:
  "headers td \<noteq> [] \<Longrightarrow>
     table_to_dict_list td = map (\<lambda>row. row_dict_loop (headers td) 0 row []) (rows td)"
  by (simp add: table_to_dict_list_def foldl_append_map)

text \<open>
  C2 (as amended). When the headers are empty, \<open>table_to_dict_list\<close> returns no record
  at all. When they are not, it returns one dictionary per row; the keys of a row's
  dictionary are the header at the cell's index, or \<open>Column_\<close> and the index plus one
  past the end of the headers; and a cell whose key is not used again by a later cell of
  the same row is the value of its key (the last write wins). The headers
  Library, Purpose, Version with the row Requests, HTTP Requests, 2.31.0 give the
  dictionary of the spec.
\<close>

theorem table_to_dict_list_spec:
  "(headers td = [] \<longrightarrow> table_to_dict_list td = [])
   \<and> (headers td \<noteq> [] \<longrightarrow>
        length (table_to_dict_list td) = length (rows td)
        \<and> (\<forall>n < length (rows td).
             dom (map_of (table_to_dict_list td ! n))
               = spec_key (headers td) ` {..<length (rows td ! n)}
             \<and> (\<forall>i < length (rows td ! n).
                  (\<forall>i'. i < i' \<and> i' < length (rows td ! n)
                         \<longrightarrow> spec_key (headers td) i' \<noteq> spec_key (headers td) i)
                  \<longrightarrow> map_of (table_to_dict_list td ! n) (spec_key (headers td) i)
                        = Some (rows td ! n ! i))))
   \<and> table_to_dict_list
         \<lparr>headers = [''Library'', ''Purpose'', ''Version''],
          rows = [[''Requests'', ''HTTP Requests'', ''2.31.0'']]\<rparr>
       = [[(''Library'', ''Requests''), (''Purpose'', ''HTTP Requests''), (''Version'', ''2.31.0'')]]"
proof (intro conjI impI allI)
  assume "headers td = []"
  then show "table_to_dict_list td = []" by (simp add: table_to_dict_list_def)
next
  assume "headers td \<noteq> []"
  then show "length (table_to_dict_list td) = length (rows td)"
    by (simp add: table_to_dict_list_map)
next
  fix n
  assume h: "headers td \<noteq> []" and n: "n < length (rows td)"
  then show "dom (map_of (table_to_dict_list td ! n)) = spec_key (headers td) ` {..<length (rows td ! n)}"
    using row_dict_loop_dom [of "headers td" 0 "rows td ! n" "[]"]
    by (simp add: table_to_dict_list_map)
next
  fix n i
  assume h: "headers td \<noteq> []" and n: "n < length (rows td)" and i: "i < length (rows td ! n)"
    and later: "\<forall>i'. i < i' \<and> i' < length (rows td ! n)
                  \<longrightarrow> spec_key (headers td) i' \<noteq> spec_key (headers td) i"
  from i later have "map_of (row_dict_loop (headers td) 0 (rows td ! n) []) (spec_key (headers td) (0 + i))
      = Some (rows td ! n ! i)"
    by (intro row_dict_loop_last_write) simp_all
  with h n show "map_of (table_to_dict_list td ! n) (spec_key (headers td) i) = Some (rows td ! n ! i)"
    by (simp add: table_to_dict_list_map)
next
  show "table_to_dict_list
         \<lparr>headers = [''Library'', ''Purpose'', ''Version''],
          rows = [[''Requests'', ''HTTP Requests'', ''2.31.0'']]\<rparr>
       = [[(''Library'', ''Requests''), (''Purpose'', ''HTTP Requests''), (''Version'', ''2.31.0'')]]"
    by (simp add: table_to_dict_list_def)
qed

theorem table_to_dict_list_spec_witness:
  "headers dup_table \<noteq> []
   \<and> length (table_to_dict_list dup_table) = 1
   \<and> dom (map_of (table_to_dict_list dup_table ! 0)) = {''k'', ''Column_3''}
   \<and> map_of (table_to_dict_list dup_table ! 0) ''k'' = Some ''b''
   \<and> map_of (table_to_dict_list dup_table ! 0) ''Column_3'' = Some ''c''"
proof -
  have h: "headers dup_table \<noteq> []" by (simp add: dup_table_def)
  have hs: "headers dup_table = [''k'', ''k'']" by (simp add: dup_table_def)
  have rs: "rows dup_table = [[''a'', ''b'', ''c'']]" by (simp add: dup_table_def)
  have k0: "spec_key [''k'', ''k''] 0 = ''k''" by (simp add: spec_key_def)
  have k1: "spec_key [''k'', ''k''] (Suc 0) = ''k''" by (simp add: spec_key_def)
  have k2: "spec_key [''k'', ''k''] 2 = ''Column_3''" by code_simp
  note s = table_to_dict_list_spec [of dup_table, THEN conjunct2, THEN conjunct1, THEN mp, OF h]
  from s have len: "length (table_to_dict_list dup_table) = 1"
    by (simp add: rs)
  have n: "0 < length (rows dup_table)" by (simp add: rs)
  note row = s [THEN conjunct2, THEN spec, THEN mp, OF n]
  have "{..<length (rows dup_table ! 0)} = {0, 1, 2}" by (auto simp: rs)
  with row [THEN conjunct1] have d: "dom (map_of (table_to_dict_list dup_table ! 0)) = {''k'', ''Column_3''}"
    by (simp add: hs k0 k1 k2)
  note cell = row [THEN conjunct2, THEN spec, THEN mp, THEN mp]
  have "map_of (table_to_dict_list dup_table ! 0) (spec_key (headers dup_table) 1) = Some (rows dup_table ! 0 ! 1)"
  proof (rule cell)
    show "1 < length (rows dup_table ! 0)" by (simp add: rs)
    show "\<forall>i'. 1 < i' \<and> i' < length (rows dup_table ! 0)
            \<longrightarrow> spec_key (headers dup_table) i' \<noteq> spec_key (headers dup_table) 1"
      by (simp add: hs rs spec_key_def)
  qed
  then have v1: "map_of (table_to_dict_list dup_table ! 0) ''k'' = Some ''b''"
    by (simp add: hs rs k1)
  have "map_of (table_to_dict_list dup_table ! 0) (spec_key (headers dup_table) 2) = Some (rows dup_table ! 0 ! 2)"
  proof (rule cell)
    show "2 < length (rows dup_table ! 0)" by (simp add: rs)
    show "\<forall>i'. 2 < i' \<and> i' < length (rows dup_table ! 0)
            \<longrightarrow> spec_key (headers dup_table) i' \<noteq> spec_key (headers dup_table) 2"
      by (auto simp: rs)
  qed
  then have v2: "map_of (table_to_dict_list dup_table ! 0) ''Column_3'' = Some ''c''"
    by (simp add: hs rs k2)
  from h len d v1 v2 show ?thesis by (intro conjI)
qed

text \<open>
  The claim as written fails for a table without headers: its rows are not empty, and
  no dictionary is returned for them.
\<close>

theorem table_to_dict_list_no_headers:
  "rows \<lparr>headers = [], rows = [[''a'', ''b'']]\<rparr> \<noteq> []
   \<and> table_to_dict_list \<lparr>headers = [], rows = [[''a'', ''b'']]\<rparr> = []"
  by (simp add: table_to_dict_list_def)

section \<open>Link extraction\<close>












section \<open>Link categories\<close>

lemma categorize_loop:
  "foldl (\<lambda>c l.
            let parsed = netloc (link_url l)
            in if parsed = base_domain \<or> parsed = []
               then c\<lparr>internal := internal c @ [l]\<rparr>
               else c\<lparr>external := external c @ [l]\<rparr>) c0 ls
   = \<lparr>internal = internal c0 @ filter (\<lambda>x. netloc (link_url x) = base_domain \<or> netloc (link_url x) = []) ls,
      external = external c0 @ filter (\<lambda>x. \<not> (netloc (link_url x) = base_domain \<or> netloc (link_url x) = [])) ls\<rparr>"
  by (induction ls arbitrary: c0) (simp_all add: Let_def)

text \<open>
  C5. \<open>categorize_links\<close> splits the links, keeping their order: a link is internal
  exactly when the network location of its URL equals that of the first link's URL or is
  empty, and external otherwise; for no links both parts are empty. Two links at
  \<open>https://a.com/x\<close> and \<open>https://b.com/y\<close>, whose network locations are \<open>a.com\<close> and
  \<open>b.com\<close>, go to internal and external.
\<close>

theorem categorize_links_spec:
  "categorize_links netloc [] = \<lparr>internal = [], external = []\<rparr>
   \<and> categorize_links netloc (l # ls) =
       \<lparr>internal = filter (\<lambda>x. netloc (link_url x) = netloc (link_url l) \<or> netloc (link_url x) = []) (l # ls),
        external = filter (\<lambda>x. \<not> (netloc (link_url x) = netloc (link_url l) \<or> netloc (link_url x) = [])) (l # ls)\<rparr>
   \<and> (netloc ''https://a.com/x'' = ''a.com'' \<and> netloc ''https://b.com/y'' = ''b.com'' \<longrightarrow>
        categorize_links netloc
          [\<lparr>link_text = ta, link_url = ''https://a.com/x''\<rparr>, \<lparr>link_text = tb, link_url = ''https://b.com/y''\<rparr>]
        = \<lparr>internal = [\<lparr>link_text = ta, link_url = ''https://a.com/x''\<rparr>],
           external = [\<lparr>link_text = tb, link_url = ''https://b.com/y''\<rparr>]\<rparr>)"
proof (intro conjI impI)
  show "categorize_links netloc [] = \<lparr>internal = [], external = []\<rparr>"
    by (simp add: categorize_links_def)
  show gen: "categorize_links netloc (l # ls) =
       \<lparr>internal = filter (\<lambda>x. netloc (link_url x) = netloc (link_url l) \<or> netloc (link_url x) = []) (l # ls),
        external = filter (\<lambda>x. \<not> (netloc (link_url x) = netloc (link_url l) \<or> netloc (link_url x) = [])) (l # ls)\<rparr>"
    for l ls
    unfolding categorize_links_def list.case Let_def [of "netloc (link_url l)"] categorize_loop
    by simp
  assume "netloc ''https://a.com/x'' = ''a.com'' \<and> netloc ''https://b.com/y'' = ''b.com''"
  then show "categorize_links netloc
          [\<lparr>link_text = ta, link_url = ''https://a.com/x''\<rparr>, \<lparr>link_text = tb, link_url = ''https://b.com/y''\<rparr>]
        = \<lparr>internal = [\<lparr>link_text = ta, link_url = ''https://a.com/x''\<rparr>],
           external = [\<lparr>link_text = tb, link_url = ''https://b.com/y''\<rparr>]\<rparr>"
    by (simp add: gen)
qed

theorem categorize_links_spec_witness:
  "url_netloc ''https://a.com/x'' = ''a.com''
   \<and> url_netloc ''https://b.com/y'' = ''b.com''
   \<and> url_netloc ''#top'' = []
   \<and> categorize_links url_netloc
        [\<lparr>link_text = ''A'', link_url = ''https://a.com/x''\<rparr>, \<lparr>link_text = ''B'', link_url = ''https://b.com/y''\<rparr>]
      = \<lparr>internal = [\<lparr>link_text = ''A'', link_url = ''https://a.com/x''\<rparr>],
         external = [\<lparr>link_text = ''B'', link_url = ''https://b.com/y''\<rparr>]\<rparr>
   \<and> categorize_links url_netloc
        [\<lparr>link_text = ''B'', link_url = ''https://b.com/y''\<rparr>, \<lparr>link_text = ''T'', link_url = ''#top''\<rparr>,
         \<lparr>link_text = ''A'', link_url = ''https://a.com/x''\<rparr>]
      = \<lparr>internal = [\<lparr>link_text = ''B'', link_url = ''https://b.com/y''\<rparr>, \<lparr>link_text = ''T'', link_url = ''#top''\<rparr>],
         external = [\<lparr>link_text = ''A'', link_url = ''https://a.com/x''\<rparr>]\<rparr>"
proof -
  have a: "url_netloc ''https://a.com/x'' = ''a.com''"
    by (simp add: url_netloc_def after_scheme_def url_scheme_def is_alpha_def is_scheme_char_def)
  have b: "url_netloc ''https://b.com/y'' = ''b.com''"
    by (simp add: url_netloc_def after_scheme_def url_scheme_def is_alpha_def is_scheme_char_def)
  have t: "url_netloc ''#top'' = []"
    by (simp add: url_netloc_def after_scheme_def url_scheme_def is_alpha_def is_scheme_char_def)
  note two = categorize_links_spec [of url_netloc _ _ "''A''" "''B''", THEN conjunct2, THEN conjunct2, THEN mp, OF conjI [OF a b]]
  have three: "categorize_links url_netloc
        [\<lparr>link_text = ''B'', link_url = ''https://b.com/y''\<rparr>, \<lparr>link_text = ''T'', link_url = ''#top''\<rparr>,
         \<lparr>link_text = ''A'', link_url = ''https://a.com/x''\<rparr>]
      = \<lparr>internal = [\<lparr>link_text = ''B'', link_url = ''https://b.com/y''\<rparr>, \<lparr>link_text = ''T'', link_url = ''#top''\<rparr>],
         external = [\<lparr>link_text = ''A'', link_url = ''https://a.com/x''\<rparr>]\<rparr>"
    unfolding categorize_links_spec [of url_netloc, THEN conjunct2, THEN conjunct1]
    by (simp add: a b t)
  from a b t two three show ?thesis by (intro conjI)
qed

section \<open>Metadata extraction\<close>

lemma meta_step_title: "md_title (meta_step md t) = md_title md"
  by (simp add: meta_step_def Let_def)

lemma foldl_meta_step_title: "md_title (foldl meta_step md ms) = md_title md"
  by (induction ms arbitrary: md) (simp_all add: meta_step_title)

lemma foldl_meta_step_description:
  "md_description (foldl meta_step md ms) =
     (case find is_description (rev ms) of
        None \<Rightarrow> md_description md
      | Some t \<Rightarrow> Some (meta_content t))"
  by (induction ms rule: rev_induct) (simp_all add: meta_step_def Let_def)

lemma foldl_meta_step_keywords:
  "md_keywords (foldl meta_step md ms) =
     (case find (\<lambda>t. \<not> is_description t \<and> meta_name t = ''keywords'') (rev ms) of
        None \<Rightarrow> md_keywords md
      | Some t \<Rightarrow> Some (meta_content t))"
  by (induction ms rule: rev_induct) (simp_all add: meta_step_def Let_def)

lemma foldl_meta_step_author:
  "md_author (foldl meta_step md ms) =
     (case find (\<lambda>t. \<not> is_description t \<and> meta_name t = ''author'') (rev ms) of
        None \<Rightarrow> md_author md
      | Some t \<Rightarrow> Some (meta_content t))"
  by (induction ms rule: rev_induct) (simp_all add: meta_step_def Let_def)

lemma lower_AUTHOR: "lower ''AUTHOR'' = ''author''"
  by code_simp

lemma find_conj_filter: "find (\<lambda>t. R t \<and> Q t) xs = find R (filter Q xs)"
  by (induction xs) simp_all

lemma md_author_last:
  "md_author (extract_metadata (Some d)) =
     map_option meta_content
       (find (\<lambda>t. \<not> is_description t \<and> meta_name t = ''author'') (rev (find_all ''meta'' d)))"
  by (simp add: extract_metadata_def Let_def foldl_meta_step_author empty_metadata_def
        split: option.splits)

lemma two_authors_second:
  assumes "filter (\<lambda>t. meta_name t = ''author'') (find_all ''meta'' d) = [a1, a2]"
    and "\<not> is_description a2"
  shows "md_author (extract_metadata (Some d)) = Some (meta_content a2)"
proof -
  have "find (\<lambda>t. \<not> is_description t \<and> meta_name t = ''author'') (rev (find_all ''meta'' d))
      = find (\<lambda>t. \<not> is_description t) (filter (\<lambda>t. meta_name t = ''author'') (rev (find_all ''meta'' d)))"
    by (rule find_conj_filter)
  also have "filter (\<lambda>t. meta_name t = ''author'') (rev (find_all ''meta'' d)) = [a2, a1]"
    using assms(1) by (simp add: rev_filter [symmetric])
  also have "find (\<lambda>t. \<not> is_description t) [a2, a1] = Some a2"
    using assms(2) by simp
  finally show ?thesis by (simp add: md_author_last)
qed

text \<open>
  C4 (as amended). For a parsed document, the title is the trimmed text of the first
  \<open>title\<close> element, absent when there is none. A \<open>meta\<close> element counts for description
  when its lowered name is \<open>description\<close> or its lowered property is \<open>og:description\<close>,
  and only otherwise for keywords or author when its lowered name is that word; each
  field is the content of the last element in document order that counts for it, absent
  when there is none. With two author tags of which the second does not count for
  description, the author is the content of the second.
\<close>

theorem extract_metadata_spec:
  "md_title (extract_metadata (Some d)) =
     (case find_all ''title'' d of [] \<Rightarrow> None | t # _ \<Rightarrow> Some (strip (get_text t)))
   \<and> md_description (extract_metadata (Some d)) =
       map_option meta_content (find is_description (rev (find_all ''meta'' d)))
   \<and> md_keywords (extract_metadata (Some d)) =
       map_option meta_content
         (find (\<lambda>t. \<not> is_description t \<and> meta_name t = ''keywords'') (rev (find_all ''meta'' d)))
   \<and> md_author (extract_metadata (Some d)) =
       map_option meta_content
         (find (\<lambda>t. \<not> is_description t \<and> meta_name t = ''author'') (rev (find_all ''meta'' d)))
   \<and> (filter (\<lambda>t. meta_name t = ''author'') (find_all ''meta'' d) = [a1, a2] \<and> \<not> is_description a2
        \<longrightarrow> md_author (extract_metadata (Some d)) = Some (meta_content a2))"
proof (intro conjI)
  show "md_title (extract_metadata (Some d)) =
     (case find_all ''title'' d of [] \<Rightarrow> None | t # _ \<Rightarrow> Some (strip (get_text t)))"
    by (simp add: extract_metadata_def Let_def foldl_meta_step_title find_node_def empty_metadata_def
          split: list.splits)
  show "md_description (extract_metadata (Some d)) =
       map_option meta_content (find is_description (rev (find_all ''meta'' d)))"
    by (simp add: extract_metadata_def Let_def foldl_meta_step_description empty_metadata_def
          split: option.splits)
  show "md_keywords (extract_metadata (Some d)) =
       map_option meta_content
         (find (\<lambda>t. \<not> is_description t \<and> meta_name t = ''keywords'') (rev (find_all ''meta'' d)))"
    by (simp add: extract_metadata_def Let_def foldl_meta_step_keywords empty_metadata_def
          split: option.splits)
  show "md_author (extract_metadata (Some d)) =
       map_option meta_content
         (find (\<lambda>t. \<not> is_description t \<and> meta_name t = ''author'') (rev (find_all ''meta'' d)))"
    by (simp add: extract_metadata_def Let_def foldl_meta_step_author empty_metadata_def
          split: option.splits)
  show "filter (\<lambda>t. meta_name t = ''author'') (find_all ''meta'' d) = [a1, a2] \<and> \<not> is_description a2
        \<longrightarrow> md_author (extract_metadata (Some d)) = Some (meta_content a2)"
    using two_authors_second [of d a1 a2] by blast
qed

theorem extract_metadata_spec_witness:
  "md_title (extract_metadata (Some meta_doc)) = Some ''Sample Page''
   \<and> md_description (extract_metadata (Some meta_doc)) = Some ''second''
   \<and> md_keywords (extract_metadata (Some meta_doc)) = Some []
   \<and> filter (\<lambda>t. meta_name t = ''author'') (find_all ''meta'' meta_doc)
       = [Element ''meta'' [(''name'', ''AUTHOR''), (''content'', ''Ada'')] [],
          Element ''meta'' [(''name'', ''author''), (''content'', ''Grace'')] []]
   \<and> md_author (extract_metadata (Some meta_doc)) = Some ''Grace''"
proof -
  have metas: "rev (find_all ''meta'' meta_doc) =
     [Element ''meta'' [(''charset'', ''UTF-8'')] [],
      Element ''meta'' [(''name'', ''keywords'')] [],
      Element ''meta'' [(''property'', ''og:description''), (''content'', ''second'')] [],
      Element ''meta'' [(''name'', ''author''), (''content'', ''Grace'')] [],
      Element ''meta'' [(''name'', ''description''), (''content'', ''first'')] [],
      Element ''meta'' [(''name'', ''AUTHOR''), (''content'', ''Ada'')] []]"
    by (simp add: meta_doc_def find_all_def)
  have titles: "find_all ''title'' meta_doc =
     [Element ''title'' [] [Text '' Sample Page ''], Element ''title'' [] [Text ''Other'']]"
    by (simp add: meta_doc_def find_all_def)
  have authors: "filter (\<lambda>t. meta_name t = ''author'') (find_all ''meta'' meta_doc)
       = [Element ''meta'' [(''name'', ''AUTHOR''), (''content'', ''Ada'')] [],
          Element ''meta'' [(''name'', ''author''), (''content'', ''Grace'')] []]"
    by (simp add: meta_doc_def find_all_def get_default_def lower_AUTHOR)
       (simp add: lower_def lower_char_def)
  have plain: "\<not> is_description (Element ''meta'' [(''name'', ''author''), (''content'', ''Grace'')] [])"
    by (simp add: get_default_def lower_def lower_char_def)
  note s = extract_metadata_spec
    [where d = meta_doc
       and ?a1.0 = "Element ''meta'' [(''name'', ''AUTHOR''), (''content'', ''Ada'')] []"
       and ?a2.0 = "Element ''meta'' [(''name'', ''author''), (''content'', ''Grace'')] []"]
  from s [THEN conjunct1] have t: "md_title (extract_metadata (Some meta_doc)) = Some ''Sample Page''"
    by (simp add: titles strip_def lstrip_def rstrip_def isspace_def)
  from s [THEN conjunct2, THEN conjunct1]
  have d: "md_description (extract_metadata (Some meta_doc)) = Some ''second''"
    unfolding metas by (simp add: get_default_def lower_def lower_char_def)
  from s [THEN conjunct2, THEN conjunct2, THEN conjunct1]
  have k: "md_keywords (extract_metadata (Some meta_doc)) = Some []"
    unfolding metas by (simp add: get_default_def lower_def lower_char_def)
  from s [THEN conjunct2, THEN conjunct2, THEN conjunct2, THEN conjunct2, THEN mp, OF conjI [OF authors plain]]
  have a: "md_author (extract_metadata (Some meta_doc)) = Some ''Grace''"
    by (simp add: get_default_def)
  from t d k authors a show ?thesis by (intro conjI)
qed

text \<open>
  The claim as written fails when the second of two author tags also carries the
  property \<open>og:description\<close>: its content becomes the description and the author stays
  the content of the first tag.
\<close>

theorem extract_metadata_second_author_lost:
  "filter (\<lambda>t. meta_name t = ''author'') (find_all ''meta'' og_author_doc)
     = [Element ''meta'' [(''name'', ''author''), (''content'', ''Ada'')] [],
        Element ''meta'' [(''name'', ''author''), (''property'', ''og:description''),
                          (''content'', ''Grace'')] []]
   \<and> md_author (extract_metadata (Some og_author_doc)) = Some ''Ada''
   \<and> md_description (extract_metadata (Some og_author_doc)) = Some ''Grace''"
  by (simp add: og_author_doc_def find_all_def find_node_def extract_metadata_def empty_metadata_def
        meta_step_def get_default_def lower_def lower_char_def Let_def)

section \<open>Tag search and tag selectors\<close>

lemma map_snd_located_below: "map snd (located_below anc n) = descendants n"
proof (induction n arbitrary: anc)
  case (Text s)
  then show ?case by simp
next
  case (Element t as cs)
  then show ?case
    by (simp add: map_concat comp_def cong: map_cong)
qed

lemma map_snd_located: "map snd (located doc) = descendants doc"
proof (cases doc)
  case (Text s)
  then show ?thesis by (simp add: located_def)
next
  case (Element t as cs)
  then show ?thesis
    by (simp add: located_def map_concat comp_def map_snd_located_below)
qed

lemma select_tag: "map snd (select (SelTag T) doc) = find_all T doc"
proof -
  have "select (SelTag T) doc = filter (\<lambda>p. has_name T (snd p)) (located doc)"
    by (simp add: select_def split_def)
  then have "map snd (select (SelTag T) doc) = filter (has_name T) (map snd (located doc))"
    by (simp add: filter_map comp_def)
  then show ?thesis by (simp add: map_snd_located find_all_def)
qed

text \<open>
  C7. For every document and tag name, \<open>find_all\<close> without filters and \<open>select\<close> with
  the bare tag-name selector return the same number of elements; indeed the same elements
  in the same order.
\<close>

theorem find_all_select_agree:
  "length (find_all T doc) = length (select (SelTag T) doc)
   \<and> find_all T doc = map snd (select (SelTag T) doc)"
proof -
  have "find_all T doc = map snd (select (SelTag T) doc)"
    by (simp only: select_tag)
  then show ?thesis by simp
qed

theorem find_all_select_agree_witness:
  "length (find_all ''p'' nested_doc) = 2 \<and> length (select (SelTag ''p'') nested_doc) = 2"
proof -
  have "length (find_all ''p'' nested_doc) = 2"
    by (simp add: find_all_def nested_doc_def outer_div_def mid_section_def deep_p_def)
  with find_all_select_agree [of "''p''" nested_doc] show ?thesis by simp
qed

section \<open>Child and descendant combinators\<close>

lemma located_below_child:
  "(anc, e) \<in> set (located_below a0 n) \<Longrightarrow> c \<in> set (children e) \<Longrightarrow>
     (e # anc, c) \<in> set (located_below a0 n)"
proof (induction n arbitrary: a0)
  case (Text s)
  then show ?case by simp
next
  case (Element t as cs)
  from Element.prems(1) obtain x where x: "x \<in> set cs"
    and mem: "(anc, e) = (Element t as cs # a0, x) \<or> (anc, e) \<in> set (located_below (Element t as cs # a0) x)"
    by auto
  from mem show ?case
  proof
    assume "(anc, e) = (Element t as cs # a0, x)"
    then have eq: "anc = Element t as cs # a0" "e = x" by simp_all
    with Element.prems(2) have "(e # anc, c) \<in> set (located_below (Element t as cs # a0) x)"
      by (cases x) auto
    with x show ?thesis by auto
  next
    assume "(anc, e) \<in> set (located_below (Element t as cs # a0) x)"
    with Element.IH [OF x] Element.prems(2)
    have "(e # anc, c) \<in> set (located_below (Element t as cs # a0) x)" by blast
    with x show ?thesis by auto
  qed
qed

lemma located_child:
  "(anc, e) \<in> set (located doc) \<Longrightarrow> c \<in> set (children e) \<Longrightarrow> (e # anc, c) \<in> set (located doc)"
proof -
  assume a: "(anc, e) \<in> set (located doc)" and c: "c \<in> set (children e)"
  from a obtain x where x: "x \<in> set (children doc)"
    and mem: "(anc, e) = ([], x) \<or> (anc, e) \<in> set (located_below [] x)"
    by (auto simp: located_def)
  from mem have "(e # anc, c) \<in> set (located_below [] x)"
  proof
    assume "(anc, e) = ([], x)"
    with c show ?thesis by (cases x) auto
  next
    assume "(anc, e) \<in> set (located_below [] x)"
    then show ?thesis using c by (rule located_below_child)
  qed
  with x show ?thesis by (auto simp: located_def)
qed

lemma descendants_located:
  "d \<in> set (descendants doc) \<Longrightarrow> \<exists>anc. (anc, d) \<in> set (located doc)"
proof -
  assume "d \<in> set (descendants doc)"
  then have "d \<in> snd ` set (located doc)"
    by (simp only: map_snd_located [symmetric] set_map)
  then show ?thesis by force
qed

lemma matches_child_tags:
  "matches (SelChild (SelTag a) (SelTag b)) anc e \<longleftrightarrow>
     has_name b e \<and> (\<exists>par up. anc = par # up \<and> has_name a par)"
  by (cases anc) simp_all

lemma matches_descendant_tags:
  "matches (SelDescendant (SelTag a) (SelTag b)) anc e \<longleftrightarrow>
     has_name b e \<and> (\<exists>x \<in> set anc. has_name a x)"
proof -
  have "list_ex (\<lambda>i. has_name a (anc ! i)) [0..<length anc] \<longleftrightarrow> (\<exists>x \<in> set anc. has_name a x)"
    by (force simp: list_ex_iff in_set_conv_nth)
  then show ?thesis by simp
qed

text \<open>
  C6. In every document, a \<open>p\<close> that is a child of a \<open>section\<close> that is a child of a
  \<open>div\<close> is returned by the descendant selector \<open>div p\<close> and is not returned by the
  child selector \<open>div > p\<close>. In general, for tag names, the child combinator returns the
  elements whose parent carries the first name, the descendant combinator those with some
  ancestor carrying it.
\<close>

theorem select_combinators:
  "(d \<in> set (descendants doc) \<and> has_name ''div'' d
      \<and> s \<in> set (children d) \<and> has_name ''section'' s
      \<and> n \<in> set (children s) \<and> has_name ''p'' n
    \<longrightarrow> (\<exists>up. (s # d # up, n) \<in> set (located doc)
              \<and> (s # d # up, n) \<in> set (select (SelDescendant (SelTag ''div'') (SelTag ''p'')) doc)
              \<and> (s # d # up, n) \<notin> set (select (SelChild (SelTag ''div'') (SelTag ''p'')) doc)))
   \<and> ((anc, e) \<in> set (select (SelChild (SelTag a) (SelTag b)) doc) \<longleftrightarrow>
        (anc, e) \<in> set (located doc) \<and> has_name b e \<and> (\<exists>par up. anc = par # up \<and> has_name a par))
   \<and> ((anc, e) \<in> set (select (SelDescendant (SelTag a) (SelTag b)) doc) \<longleftrightarrow>
        (anc, e) \<in> set (located doc) \<and> has_name b e \<and> (\<exists>x \<in> set anc. has_name a x))"
proof (intro conjI impI)
  assume h: "d \<in> set (descendants doc) \<and> has_name ''div'' d
      \<and> s \<in> set (children d) \<and> has_name ''section'' s
      \<and> n \<in> set (children s) \<and> has_name ''p'' n"
  then obtain up where up: "(up, d) \<in> set (located doc)"
    using descendants_located by blast
  from up h have "(d # up, s) \<in> set (located doc)" by (blast intro: located_child)
  with h have loc: "(s # d # up, n) \<in> set (located doc)" by (blast intro: located_child)
  from h have "matches (SelDescendant (SelTag ''div'') (SelTag ''p'')) (s # d # up) n"
    by (simp only: matches_descendant_tags) simp
  with loc have yes: "(s # d # up, n) \<in> set (select (SelDescendant (SelTag ''div'') (SelTag ''p'')) doc)"
    by (simp add: select_def)
  from h have "\<not> has_name ''div'' s" by (cases s) auto
  then have "\<not> matches (SelChild (SelTag ''div'') (SelTag ''p'')) (s # d # up) n"
    by (simp only: matches_child_tags) simp
  then have no: "(s # d # up, n) \<notin> set (select (SelChild (SelTag ''div'') (SelTag ''p'')) doc)"
    by (simp add: select_def)
  from loc yes no
  show "\<exists>up. (s # d # up, n) \<in> set (located doc)
              \<and> (s # d # up, n) \<in> set (select (SelDescendant (SelTag ''div'') (SelTag ''p'')) doc)
              \<and> (s # d # up, n) \<notin> set (select (SelChild (SelTag ''div'') (SelTag ''p'')) doc)"
    by blast
next
  show "(anc, e) \<in> set (select (SelChild (SelTag a) (SelTag b)) doc) \<longleftrightarrow>
        (anc, e) \<in> set (located doc) \<and> has_name b e \<and> (\<exists>par up. anc = par # up \<and> has_name a par)"
    by (simp only: select_def set_filter mem_Collect_eq split_conv matches_child_tags)
next
  show "(anc, e) \<in> set (select (SelDescendant (SelTag a) (SelTag b)) doc) \<longleftrightarrow>
        (anc, e) \<in> set (located doc) \<and> has_name b e \<and> (\<exists>x \<in> set anc. has_name a x)"
    by (simp only: select_def set_filter mem_Collect_eq split_conv matches_descendant_tags)
qed

lemmas select_eval = select_def located_def nested_doc_def outer_div_def mid_section_def deep_p_def

theorem select_combinators_witness:
  "outer_div \<in> set (descendants nested_doc)
   \<and> mid_section \<in> set (children outer_div)
   \<and> deep_p \<in> set (children mid_section)
   \<and> (\<exists>up. (mid_section # outer_div # up, deep_p)
               \<in> set (select (SelDescendant (SelTag ''div'') (SelTag ''p'')) nested_doc)
            \<and> (mid_section # outer_div # up, deep_p)
               \<notin> set (select (SelChild (SelTag ''div'') (SelTag ''p'')) nested_doc))
   \<and> map snd (select (SelDescendant (SelTag ''div'') (SelTag ''p'')) nested_doc)
       = [deep_p, Element ''p'' [] [Text ''direct'']]
   \<and> map snd (select (SelChild (SelTag ''div'') (SelTag ''p'')) nested_doc)
       = [Element ''p'' [] [Text ''direct'']]"
proof -
  have a: "outer_div \<in> set (descendants nested_doc)"
    by (simp add: nested_doc_def outer_div_def mid_section_def deep_p_def)
  have a': "has_name ''div'' outer_div" by (simp add: outer_div_def)
  have b: "mid_section \<in> set (children outer_div)" by (simp add: outer_div_def)
  have b': "has_name ''section'' mid_section" by (simp add: mid_section_def)
  have c: "deep_p \<in> set (children mid_section)" by (simp add: mid_section_def)
  have c': "has_name ''p'' deep_p" by (simp add: deep_p_def)
  from a a' b b' c c' have hyp: "outer_div \<in> set (descendants nested_doc) \<and> has_name ''div'' outer_div
      \<and> mid_section \<in> set (children outer_div) \<and> has_name ''section'' mid_section
      \<and> deep_p \<in> set (children mid_section) \<and> has_name ''p'' deep_p"
    by (intro conjI)
  from select_combinators [where doc = nested_doc and d = outer_div and s = mid_section and n = deep_p,
      THEN conjunct1, THEN mp, OF hyp]
  obtain up where up: "(mid_section # outer_div # up, deep_p)
               \<in> set (select (SelDescendant (SelTag ''div'') (SelTag ''p'')) nested_doc)"
      "(mid_section # outer_div # up, deep_p)
               \<notin> set (select (SelChild (SelTag ''div'') (SelTag ''p'')) nested_doc)"
    by blast
  then have e: "\<exists>up. (mid_section # outer_div # up, deep_p)
               \<in> set (select (SelDescendant (SelTag ''div'') (SelTag ''p'')) nested_doc)
            \<and> (mid_section # outer_div # up, deep_p)
               \<notin> set (select (SelChild (SelTag ''div'') (SelTag ''p'')) nested_doc)"
    by blast
  have f: "map snd (select (SelDescendant (SelTag ''div'') (SelTag ''p'')) nested_doc)
       = [deep_p, Element ''p'' [] [Text ''direct'']]"
    by (simp add: select_eval)
  have g: "map snd (select (SelChild (SelTag ''div'') (SelTag ''p'')) nested_doc)
       = [Element ''p'' [] [Text ''direct'']]"
    by (simp add: select_eval)
  from a b c e f g show ?thesis by (intro conjI)
qed

end
